theory Spec2Isabelle
  imports Main "HOL-Library.Word"
begin

section \<open>Data model of the track listener\<close>

text \<open>
  The listener of \<^verbatim>\<open>package server\<close> owns one peer connection. Tracks and RTP senders
  are pointers in the source (\<^verbatim>\<open>*webrtc.Track\<close>, \<^verbatim>\<open>*webrtc.RTPSender\<close>): map keys and
  event payloads compare by address, so both are modelled as addresses.
\<close>

type_synonym byte = "8 word"
type_synonym track = nat
type_synonym rtp_sender = nat

datatype TrackEventType = TrackEventTypeAdd | TrackEventTypeRemove

record TrackEvent =
  ClientID :: string
  Track :: track
  Type :: TrackEventType

text \<open>What the listener reads from a remote track: its id, label, payload type and SSRC.\<close>

record remote_track =
  rt_ID :: string
  rt_Label :: string
  rt_PayloadType :: "8 word"
  rt_SSRC :: "32 word"

text \<open>
  \<^verbatim>\<open>sync.Once\<close>: a second caller of \<^verbatim>\<open>Do\<close> waits while the first is still running
  the function, and returns at once when it has finished.
\<close>

datatype once_state = OnceIdle | OnceRunning | OnceDone

text \<open>
  The struct \<^verbatim>\<open>trackListener\<close>. The two channels carry no buffered value (both are made
  unbuffered), so each is its closed flag; \<^verbatim>\<open>localTracksMu\<close> is only ever taken in
  write mode in the source, \<^verbatim>\<open>mu\<close> in both modes. The logger and the peer connection are
  collaborators: logging has no effect on the listener, and each result of the peer
  connection is an input of the operation that calls it.
\<close>

record trackListener =
  clientID :: string
  localTracks :: "track list"
  localTracksMu :: bool
  rtpSenderByTrack :: "track \<rightharpoonup> rtp_sender"
  tracksChannel_closed :: bool
  tracksChannelClosed :: bool
  closeChannel_closed :: bool
  mu_readers :: nat
  mu_writer :: bool
  closeOnce :: once_state

definition newTrackListener :: "string \<Rightarrow> trackListener" where
  "newTrackListener cid =
     \<lparr> clientID = cid, localTracks = [], localTracksMu = False,
       rtpSenderByTrack = Map.empty,
       tracksChannel_closed = False, tracksChannelClosed = False,
       closeChannel_closed = False, mu_readers = 0, mu_writer = False,
       closeOnce = OnceIdle \<rparr>"

text \<open>
  The errors of \<^verbatim>\<open>AddTrack\<close> and \<^verbatim>\<open>RemoveTrack\<close>. \<^verbatim>\<open>AddTrack\<close> wraps the error of the
  peer connection in a message with the client id and the track; \<^verbatim>\<open>RemoveTrack\<close> builds
  its own message when it finds no sender, and otherwise returns the error of the peer
  connection as it is.
\<close>

datatype error =
    AttachFailed string track string
  | UnknownTrack string track
  | DetachFailed string

section \<open>AddTrack and RemoveTrack\<close>

text \<open>
  Both run under \<^verbatim>\<open>localTracksMu\<close>, taken at entry and released at return. The second
  argument is what the peer connection answers when it is called: for \<^verbatim>\<open>AddTrack\<close> the
  sender or an error, for \<^verbatim>\<open>RemoveTrack\<close> the error, if any, of removing the sender.
\<close>

definition AddTrack ::
  "track \<Rightarrow> string + rtp_sender \<Rightarrow> trackListener \<Rightarrow> error option \<times> trackListener" where
  "AddTrack track pcAddTrack p =
     (case pcAddTrack of
        Inl err \<Rightarrow> (Some (AttachFailed (clientID p) track err), p)
      | Inr rtpSender \<Rightarrow>
          (None, p\<lparr>rtpSenderByTrack := (rtpSenderByTrack p)(track \<mapsto> rtpSender)\<rparr>))"

definition RemoveTrack ::
  "track \<Rightarrow> string option \<Rightarrow> trackListener \<Rightarrow> error option \<times> trackListener" where
  "RemoveTrack track pcRemoveTrack p =
     (case rtpSenderByTrack p track of
        None \<Rightarrow> (Some (UnknownTrack (clientID p) track), p)
      | Some rtpSender \<Rightarrow>
          (map_option DetachFailed pcRemoveTrack,
           p\<lparr>rtpSenderByTrack := (rtpSenderByTrack p)(track := None)\<rparr>))"

section \<open>Close\<close>

text \<open>
  What one step of a goroutine does: it waits (a lock that is held, a \<^verbatim>\<open>sync.Once\<close> that
  is running, a channel with no partner), it panics (which ends the program, nothing
  recovers), or it moves on.
\<close>

datatype 'a outcome = Blocked | Panic | Next 'a

text \<open>
  \<^verbatim>\<open>Close\<close> statement by statement. The position is the statement to run next:
  enter \<^verbatim>\<open>closeOnce.Do\<close>, \<^verbatim>\<open>close(p.closeChannel)\<close>, \<^verbatim>\<open>p.mu.Lock()\<close>,
  \<^verbatim>\<open>close(p.tracksChannel)\<close>, \<^verbatim>\<open>p.tracksChannelClosed = true\<close>, the deferred
  \<^verbatim>\<open>p.mu.Unlock()\<close>, the end of \<^verbatim>\<open>Do\<close> (which marks the once as done), returned.
  Closing a channel that is closed already panics.
\<close>

datatype close_pc =
  CCall | CCloseSignal | CLock | CCloseEvents | CSetClosed | CUnlock | COnceDone | CReturned

fun Close_step :: "close_pc \<Rightarrow> trackListener \<Rightarrow> (close_pc \<times> trackListener) outcome" where
  "Close_step CCall p =
     (case closeOnce p of
        OnceIdle \<Rightarrow> Next (CCloseSignal, p\<lparr>closeOnce := OnceRunning\<rparr>)
      | OnceRunning \<Rightarrow> Blocked
      | OnceDone \<Rightarrow> Next (CReturned, p))"
| "Close_step CCloseSignal p =
     (if closeChannel_closed p then Panic
      else Next (CLock, p\<lparr>closeChannel_closed := True\<rparr>))"
| "Close_step CLock p =
     (if mu_writer p \<or> 0 < mu_readers p then Blocked
      else Next (CCloseEvents, p\<lparr>mu_writer := True\<rparr>))"
| "Close_step CCloseEvents p =
     (if tracksChannel_closed p then Panic
      else Next (CSetClosed, p\<lparr>tracksChannel_closed := True\<rparr>))"
| "Close_step CSetClosed p = Next (CUnlock, p\<lparr>tracksChannelClosed := True\<rparr>)"
| "Close_step CUnlock p = Next (COnceDone, p\<lparr>mu_writer := False\<rparr>)"
| "Close_step COnceDone p = Next (CReturned, p\<lparr>closeOnce := OnceDone\<rparr>)"
| "Close_step CReturned p = Blocked"

text \<open>
  A call of \<^verbatim>\<open>Close\<close> that no other goroutine interleaves with: its steps in sequence,
  from the call to the return. There are at most seven, so the seven allowed here never
  run out: the call returns, waits at a step that waits, or panics.
\<close>

fun Close_steps :: "nat \<Rightarrow> close_pc \<Rightarrow> trackListener \<Rightarrow> trackListener outcome" where
  "Close_steps n CReturned p = Next p"
| "Close_steps 0 pc p = Blocked"
| "Close_steps (Suc n) pc p =
     (case Close_step pc p of
        Blocked \<Rightarrow> Blocked
      | Panic \<Rightarrow> Panic
      | Next (pc', p') \<Rightarrow> Close_steps n pc' p')"

definition Close :: "trackListener \<Rightarrow> trackListener outcome" where
  "Close p = Close_steps 7 CCall p"

text \<open>\<^verbatim>\<open>Close\<close> called \<open>n\<close> times in a row, each call after the one before has returned.\<close>

fun Close_times :: "nat \<Rightarrow> trackListener \<Rightarrow> trackListener outcome" where
  "Close_times 0 p = Next p"
| "Close_times (Suc n) p =
     (case Close p of
        Blocked \<Rightarrow> Blocked
      | Panic \<Rightarrow> Panic
      | Next p' \<Rightarrow> Close_times n p')"

section \<open>startCopyingTrack and handleTrack\<close>

text \<open>
  The arguments of \<^verbatim>\<open>peerConnection.NewTrack\<close>. \<^verbatim>\<open>NewUUIDBase62\<close> is a function of the
  package defined outside the source file of the listener: \<open>uuid_id\<close> and \<open>uuid_label\<close>
  are what it returns at the call for the id and at the call for the label, when they
  are made.
\<close>

record NewTrack_args =
  nt_payloadType :: "8 word"
  nt_ssrc :: "32 word"
  nt_id :: string
  nt_label :: string

definition startCopyingTrack_NewTrack ::
  "string \<Rightarrow> remote_track \<Rightarrow> string \<Rightarrow> string \<Rightarrow> NewTrack_args" where
  "startCopyingTrack_NewTrack cid remoteTrack uuid_id uuid_label =
     (let remoteTrackID = (if rt_ID remoteTrack = [] then uuid_id else rt_ID remoteTrack);
          remoteTrackLabel =
            (if rt_Label remoteTrack = [] then uuid_label else rt_Label remoteTrack);
          localTrackLabel = ''sfu_'' @ cid @ ''_'' @ remoteTrackLabel;
          localTrackID = ''sfu_'' @ remoteTrackID
      in \<lparr> nt_payloadType = rt_PayloadType remoteTrack, nt_ssrc = rt_SSRC remoteTrack,
           nt_id = localTrackID, nt_label = localTrackLabel \<rparr>)"

text \<open>
  Modelled from the spec: \<^verbatim>\<open>NewUUIDBase62\<close> is not among the sources. The spec says of
  its result that it is a non-empty base-62 UUID: a non-empty string of digits and
  ASCII letters.
\<close>

definition base62_chars :: "char set" where
  "base62_chars = set ''0123456789ABCDEFGHIJKLMNOPQRSTUVWXYZabcdefghijklmnopqrstuvwxyz''"

definition is_UUIDBase62 :: "string \<Rightarrow> bool" where
  "is_UUIDBase62 u \<longleftrightarrow> u \<noteq> [] \<and> set u \<subseteq> base62_chars"

text \<open>
  The three goroutines of one remote track whose local track was created: the handler
  (\<^verbatim>\<open>handleTrack\<close> after \<^verbatim>\<open>startCopyingTrack\<close> has returned), the PLI goroutine and the
  forwarding goroutine, each with the statement it runs next, and what the closures share:
  the ticker, the buffer, the local track. \<^verbatim>\<open>local_writes\<close> is the sequence of byte
  strings passed to \<^verbatim>\<open>localTrack.Write\<close> so far.

  The ticker: \<^verbatim>\<open>time.NewTicker\<close> makes a channel with room for one tick; a tick that
  finds the room taken is dropped; \<^verbatim>\<open>Stop\<close> ends the ticks and does not close the
  channel, and nothing else closes it.
\<close>

datatype handler_pc = HLock | HAppend | HUnlock | HSend | HReturned

datatype pli_pc = PFirstWrite | PRange | PReturned

datatype fwd_pc =
  FLoop | FDeferRLock | FDeferCheck | FDeferSend | FDeferRUnlock | FTickerStop | FReturned

record copier =
  remoteTrack :: remote_track
  localTrack :: track
  handler :: handler_pc
  pli :: pli_pc
  fwd :: fwd_pc
  rtpBuf :: "byte list"
  local_writes :: "byte list list"
  ticker_stopped :: bool
  ticker_C :: bool
  ticker_C_closed :: bool

definition new_copier :: "remote_track \<Rightarrow> track \<Rightarrow> copier" where
  "new_copier rt lt =
     \<lparr> remoteTrack = rt, localTrack = lt, handler = HLock, pli = PFirstWrite, fwd = FLoop,
       rtpBuf = replicate 1400 0, local_writes = [],
       ticker_stopped = False, ticker_C = False, ticker_C_closed = False \<rparr>"

text \<open>The calls made on the peer connection by the goroutines, in the order made.\<close>

datatype pc_call = NewTrack_call NewTrack_args | WriteRTCP_PLI "32 word"

text \<open>
  The whole program: the listener, the goroutines, the events the router has received
  from \<^verbatim>\<open>TracksChannel()\<close>, the calls on the peer connection, the slices \<^verbatim>\<open>Tracks()\<close> has
  returned, and whether a goroutine has panicked.
\<close>

record system =
  listener :: trackListener
  copiers :: "copier list"
  closers :: "close_pc list"
  events_received :: "TrackEvent list"
  pc_calls :: "pc_call list"
  Tracks_returned :: "track list list"
  panicked :: bool

definition init :: "string \<Rightarrow> system" where
  "init cid =
     \<lparr> listener = newTrackListener cid, copiers = [], closers = [],
       events_received = [], pc_calls = [], Tracks_returned = [], panicked = False \<rparr>"

definition set_copier :: "nat \<Rightarrow> copier \<Rightarrow> system \<Rightarrow> system" where
  "set_copier i c s = s\<lparr>copiers := (copiers s)[i := c]\<rparr>"

text \<open>
  \<^verbatim>\<open>handleTrack\<close> up to the return of \<^verbatim>\<open>startCopyingTrack\<close>: the call of \<^verbatim>\<open>NewTrack\<close>,
  whose answer \<open>res\<close> is an input. On an error the handler logs and returns. Otherwise
  the ticker is made and both goroutines are started before the local track is returned.
\<close>

definition handleTrack_start ::
  "remote_track \<Rightarrow> string \<Rightarrow> string \<Rightarrow> string + track \<Rightarrow> system \<Rightarrow> system" where
  "handleTrack_start rt uuid_id uuid_label res s =
     (let args = startCopyingTrack_NewTrack (clientID (listener s)) rt uuid_id uuid_label;
          s1 = s\<lparr>pc_calls := pc_calls s @ [NewTrack_call args]\<rparr>
      in case res of
           Inl err \<Rightarrow> s1
         | Inr lt \<Rightarrow> s1\<lparr>copiers := copiers s1 @ [new_copier rt lt]\<rparr>)"

text \<open>
  The rest of \<^verbatim>\<open>handleTrack\<close>: lock \<^verbatim>\<open>localTracksMu\<close>, append, unlock, then the send
  \<^verbatim>\<open>p.tracksChannel <- TrackEvent{...}\<close>. The channel is unbuffered: the send step is the
  hand-over to the router, taken when the router receives, and until then the handler
  waits. A send on a closed channel panics, also when the channel is closed while the
  sender waits.
\<close>

definition handleTrack_step :: "nat \<Rightarrow> system \<Rightarrow> system outcome" where
  "handleTrack_step i s =
     (let c = copiers s ! i; p = listener s in
      case handler c of
        HLock \<Rightarrow>
          if localTracksMu p then Blocked
          else Next (set_copier i (c\<lparr>handler := HAppend\<rparr>)
                       (s\<lparr>listener := p\<lparr>localTracksMu := True\<rparr>\<rparr>))
      | HAppend \<Rightarrow>
          Next (set_copier i (c\<lparr>handler := HUnlock\<rparr>)
                  (s\<lparr>listener := p\<lparr>localTracks := localTracks p @ [localTrack c]\<rparr>\<rparr>))
      | HUnlock \<Rightarrow>
          Next (set_copier i (c\<lparr>handler := HSend\<rparr>)
                  (s\<lparr>listener := p\<lparr>localTracksMu := False\<rparr>\<rparr>))
      | HSend \<Rightarrow>
          if tracksChannel_closed p then Panic
          else Next (set_copier i (c\<lparr>handler := HReturned\<rparr>)
                       (s\<lparr>events_received := events_received s @
                            [\<lparr>ClientID = clientID p, Track = localTrack c,
                              Type = TrackEventTypeAdd\<rparr>]\<rparr>))
      | HReturned \<Rightarrow> Blocked)"

section \<open>The PLI goroutine and the ticker\<close>

text \<open>
  \<^verbatim>\<open>writeRTCP()\<close> once, then once for each value received from \<^verbatim>\<open>ticker.C\<close>. An error of
  \<^verbatim>\<open>WriteRTCP\<close> is logged and changes nothing else. A \<^verbatim>\<open>for range\<close> over a channel ends
  when the channel is closed and empty.
\<close>

definition pli_step :: "nat \<Rightarrow> system \<Rightarrow> system outcome" where
  "pli_step i s =
     (let c = copiers s ! i;
          write = s\<lparr>pc_calls := pc_calls s @ [WriteRTCP_PLI (rt_SSRC (remoteTrack c))]\<rparr> in
      case pli c of
        PFirstWrite \<Rightarrow> Next (set_copier i (c\<lparr>pli := PRange\<rparr>) write)
      | PRange \<Rightarrow>
          if ticker_C c then Next (set_copier i (c\<lparr>ticker_C := False\<rparr>) write)
          else if ticker_C_closed c then Next (set_copier i (c\<lparr>pli := PReturned\<rparr>) s)
          else Blocked
      | PReturned \<Rightarrow> Blocked)"

text \<open>The ticker fires (every three seconds until stopped).\<close>

definition ticker_tick :: "nat \<Rightarrow> system \<Rightarrow> system outcome" where
  "ticker_tick i s =
     (let c = copiers s ! i in
      if ticker_stopped c then Blocked
      else Next (set_copier i (c\<lparr>ticker_C := True\<rparr>) s))"

section \<open>The forwarding goroutine\<close>

text \<open>
  What the environment answers in one turn of the loop: the result of
  \<^verbatim>\<open>remoteTrack.Read(rtpBuf)\<close>, an error or the bytes of the packet read, and the result
  of \<^verbatim>\<open>localTrack.Write\<close>, where \<^verbatim>\<open>io.ErrClosedPipe\<close> is told apart from every other
  error, as the comparison \<^verbatim>\<open>err != io.ErrClosedPipe\<close> does.
\<close>

datatype read_result = ReadErr string | ReadOk "byte list"

datatype write_result = WriteOk | WriteErrClosedPipe | WriteErr string

text \<open>
  \<^verbatim>\<open>Read\<close> stores the \<open>i\<close> bytes of the packet at the front of the buffer and returns
  \<open>i\<close>; the rest of the buffer keeps what earlier reads left there.
\<close>

definition Read_into :: "byte list \<Rightarrow> byte list \<Rightarrow> byte list" where
  "Read_into buf dat = dat @ drop (length dat) buf"

text \<open>
  One turn of the loop: the buffer after the read, the slice \<^verbatim>\<open>rtpBuf[:i]\<close> passed to
  \<^verbatim>\<open>localTrack.Write\<close> (none when the read failed), and whether the loop goes on. A read
  never returns more bytes than the buffer holds (the contract of \<^verbatim>\<open>Read\<close>), so a longer
  packet is no turn at all.
\<close>

record turn =
  buf_after :: "byte list"
  passed_to_Write :: "byte list option"
  goes_on :: bool

definition loop_turn :: "byte list \<Rightarrow> read_result \<Rightarrow> write_result \<Rightarrow> turn option" where
  "loop_turn buf rr wr =
     (case rr of
        ReadErr err \<Rightarrow> Some \<lparr>buf_after = buf, passed_to_Write = None, goes_on = False\<rparr>
      | ReadOk dat \<Rightarrow>
          if length buf < length dat then None
          else
            let buf' = Read_into buf dat; i = length dat in
            Some \<lparr>buf_after = buf', passed_to_Write = Some (take i buf'),
                  goes_on = (case wr of WriteOk \<Rightarrow> True | WriteErrClosedPipe \<Rightarrow> True
                                      | WriteErr err \<Rightarrow> False)\<rparr>)"

text \<open>
  The goroutine: the loop, then the deferred calls in reverse order of their \<^verbatim>\<open>defer\<close>:
  first the function that takes \<^verbatim>\<open>p.mu.RLock()\<close>, sends the remove event if
  \<^verbatim>\<open>tracksChannelClosed\<close> is false and releases the lock, then \<^verbatim>\<open>ticker.Stop()\<close>.
\<close>

definition forward_step :: "nat \<Rightarrow> read_result \<Rightarrow> write_result \<Rightarrow> system \<Rightarrow> system outcome" where
  "forward_step i rr wr s =
     (let c = copiers s ! i; p = listener s in
      case fwd c of
        FLoop \<Rightarrow>
          (case loop_turn (rtpBuf c) rr wr of
             None \<Rightarrow> Blocked
           | Some t \<Rightarrow>
               Next (set_copier i
                       (c\<lparr>rtpBuf := buf_after t,
                          local_writes := local_writes c @
                            (case passed_to_Write t of None \<Rightarrow> [] | Some b \<Rightarrow> [b]),
                          fwd := (if goes_on t then FLoop else FDeferRLock)\<rparr>) s))
      | FDeferRLock \<Rightarrow>
          if mu_writer p then Blocked
          else Next (set_copier i (c\<lparr>fwd := FDeferCheck\<rparr>)
                       (s\<lparr>listener := p\<lparr>mu_readers := mu_readers p + 1\<rparr>\<rparr>))
      | FDeferCheck \<Rightarrow>
          Next (set_copier i
                  (c\<lparr>fwd := (if \<not> tracksChannelClosed p then FDeferSend else FDeferRUnlock)\<rparr>) s)
      | FDeferSend \<Rightarrow>
          if tracksChannel_closed p then Panic
          else Next (set_copier i (c\<lparr>fwd := FDeferRUnlock\<rparr>)
                       (s\<lparr>events_received := events_received s @
                            [\<lparr>ClientID = clientID p, Track = localTrack c,
                              Type = TrackEventTypeRemove\<rparr>]\<rparr>))
      | FDeferRUnlock \<Rightarrow>
          Next (set_copier i (c\<lparr>fwd := FTickerStop\<rparr>)
                  (s\<lparr>listener := p\<lparr>mu_readers := mu_readers p - 1\<rparr>\<rparr>))
      | FTickerStop \<Rightarrow> Next (set_copier i (c\<lparr>fwd := FReturned, ticker_stopped := True\<rparr>) s)
      | FReturned \<Rightarrow> Blocked)"

section \<open>Tracks\<close>

text \<open>\<^verbatim>\<open>Tracks\<close> returns the field \<^verbatim>\<open>localTracks\<close>; it takes no lock.\<close>

definition Tracks :: "trackListener \<Rightarrow> track list" where
  "Tracks p = localTracks p"

section \<open>Executions\<close>

text \<open>
  One step of the program is a step of one goroutine or a call from outside: the peer
  connection delivers a remote track (with what \<^verbatim>\<open>NewUUIDBase62\<close> and \<^verbatim>\<open>NewTrack\<close> answer),
  a handler, a PLI goroutine, a ticker or a forwarding goroutine moves, somebody calls
  \<^verbatim>\<open>Close\<close> and that call moves, somebody calls \<^verbatim>\<open>AddTrack\<close>, \<^verbatim>\<open>RemoveTrack\<close> or
  \<^verbatim>\<open>Tracks\<close>. \<^verbatim>\<open>AddTrack\<close> and \<^verbatim>\<open>RemoveTrack\<close> hold \<^verbatim>\<open>localTracksMu\<close> from entry to
  return, so each is one step, possible when the lock is free. A step that would wait is
  not taken (\<open>None\<close>); after a panic there are no steps.
\<close>

datatype action =
    OnTrack remote_track string string "string + track"
  | Handler nat
  | PLI nat
  | Tick nat
  | Forward nat read_result write_result
  | CallClose
  | Closer nat
  | CallAddTrack track "string + rtp_sender"
  | CallRemoveTrack track "string option"
  | CallTracks

definition finish :: "system \<Rightarrow> system outcome \<Rightarrow> system option" where
  "finish s r = (case r of Blocked \<Rightarrow> None | Panic \<Rightarrow> Some (s\<lparr>panicked := True\<rparr>) | Next s' \<Rightarrow> Some s')"

definition closer_step :: "nat \<Rightarrow> system \<Rightarrow> system outcome" where
  "closer_step j s =
     (case Close_step (closers s ! j) (listener s) of
        Blocked \<Rightarrow> Blocked
      | Panic \<Rightarrow> Panic
      | Next (pc', p') \<Rightarrow> Next (s\<lparr>listener := p', closers := (closers s)[j := pc']\<rparr>))"

fun step_action :: "action \<Rightarrow> system \<Rightarrow> system outcome" where
  "step_action (OnTrack rt uuid_id uuid_label res) s =
     Next (handleTrack_start rt uuid_id uuid_label res s)"
| "step_action (Handler i) s =
     (if i < length (copiers s) then handleTrack_step i s else Blocked)"
| "step_action (PLI i) s = (if i < length (copiers s) then pli_step i s else Blocked)"
| "step_action (Tick i) s = (if i < length (copiers s) then ticker_tick i s else Blocked)"
| "step_action (Forward i rr wr) s =
     (if i < length (copiers s) then forward_step i rr wr s else Blocked)"
| "step_action CallClose s = Next (s\<lparr>closers := closers s @ [CCall]\<rparr>)"
| "step_action (Closer j) s = (if j < length (closers s) then closer_step j s else Blocked)"
| "step_action (CallAddTrack t res) s =
     (if localTracksMu (listener s) then Blocked
      else Next (s\<lparr>listener := snd (AddTrack t res (listener s))\<rparr>))"
| "step_action (CallRemoveTrack t pc) s =
     (if localTracksMu (listener s) then Blocked
      else Next (s\<lparr>listener := snd (RemoveTrack t pc (listener s))\<rparr>))"
| "step_action CallTracks s =
     Next (s\<lparr>Tracks_returned := Tracks_returned s @ [Tracks (listener s)]\<rparr>)"

definition step :: "system \<Rightarrow> action \<Rightarrow> system option" where
  "step s a = (if panicked s then None else finish s (step_action a s))"

fun run :: "system \<Rightarrow> action list \<Rightarrow> system option" where
  "run s [] = Some s"
| "run s (a # as) = (case step s a of None \<Rightarrow> None | Some s' \<Rightarrow> run s' as)"

section \<open>Invariants of the executions\<close>

text \<open>
  What holds of the close state in every reachable state: the flag is set only after the
  events channel is closed, the events channel is closed only after the close channel,
  the once is done only after the flag is set; and each call of \<^verbatim>\<open>Close\<close> that is under
  way has done what comes before its position.
\<close>

definition close_glob :: "trackListener \<Rightarrow> bool" where
  "close_glob p \<longleftrightarrow>
     (tracksChannelClosed p \<longrightarrow> tracksChannel_closed p) \<and>
     (tracksChannel_closed p \<longrightarrow> closeChannel_closed p) \<and>
     (closeOnce p = OnceDone \<longrightarrow> tracksChannelClosed p)"

fun close_pc_ok :: "trackListener \<Rightarrow> close_pc \<Rightarrow> bool" where
  "close_pc_ok p CCall = True"
| "close_pc_ok p CCloseSignal = True"
| "close_pc_ok p CLock = closeChannel_closed p"
| "close_pc_ok p CCloseEvents = closeChannel_closed p"
| "close_pc_ok p CSetClosed = tracksChannel_closed p"
| "close_pc_ok p CUnlock = tracksChannelClosed p"
| "close_pc_ok p COnceDone = tracksChannelClosed p"
| "close_pc_ok p CReturned = (closeOnce p = OnceDone)"

definition close_inv :: "system \<Rightarrow> bool" where
  "close_inv s \<longleftrightarrow>
     close_glob (listener s) \<and> (\<forall>pc \<in> set (closers s). close_pc_ok (listener s) pc)"

text \<open>Two listener states with the same close state.\<close>

definition same_close_fields :: "trackListener \<Rightarrow> trackListener \<Rightarrow> bool" where
  "same_close_fields p p' \<longleftrightarrow>
     tracksChannelClosed p' = tracksChannelClosed p \<and>
     tracksChannel_closed p' = tracksChannel_closed p \<and>
     closeChannel_closed p' = closeChannel_closed p \<and>
     closeOnce p' = closeOnce p"

text \<open>The positions of a handler after its append to \<^verbatim>\<open>localTracks\<close>.\<close>

fun handler_appended :: "handler_pc \<Rightarrow> bool" where
  "handler_appended HLock = False"
| "handler_appended HAppend = False"
| "handler_appended HUnlock = True"
| "handler_appended HSend = True"
| "handler_appended HReturned = True"

text \<open>
  A handler past its append has its local track in \<^verbatim>\<open>localTracks\<close>, and so has every
  add event the router has received.
\<close>

definition add_inv :: "system \<Rightarrow> bool" where
  "add_inv s \<longleftrightarrow>
     (\<forall>c \<in> set (copiers s).
        handler_appended (handler c) \<longrightarrow> localTrack c \<in> set (localTracks (listener s))) \<and>
     (\<forall>e \<in> set (events_received s).
        Type e = TrackEventTypeAdd \<longrightarrow> Track e \<in> set (localTracks (listener s)))"


text \<open>No ticker channel is ever closed, and no PLI goroutine has returned.\<close>

definition ticker_inv :: "system \<Rightarrow> bool" where
  "ticker_inv s \<longleftrightarrow> (\<forall>c \<in> set (copiers s). \<not> ticker_C_closed c \<and> pli c \<noteq> PReturned)"









section \<open>Properties of RemoveTrack\<close>

text \<open>
  C5, as the code has it. With no sender recorded for the track, \<^verbatim>\<open>RemoveTrack\<close> returns
  the unknown-track error and leaves the listener as it was. With a sender recorded, the
  result is the detach error exactly when the peer connection rejects the removal, and
  the entry of the track is deleted in both cases: the deletion comes before the call to
  the peer connection.
\<close>

theorem RemoveTrack_behaviour:
  "(rtpSenderByTrack p t = None \<longrightarrow>
      RemoveTrack t pc p = (Some (UnknownTrack (clientID p) t), p)) \<and>
   (rtpSenderByTrack p t = Some s \<longrightarrow>
      fst (RemoveTrack t pc p) = map_option DetachFailed pc \<and>
      (fst (RemoveTrack t pc p) = None \<longleftrightarrow> pc = None) \<and>
      rtpSenderByTrack (snd (RemoveTrack t pc p)) t = None \<and>
      (\<forall>u. u \<noteq> t \<longrightarrow> rtpSenderByTrack (snd (RemoveTrack t pc p)) u = rtpSenderByTrack p u) \<and>
      localTracks (snd (RemoveTrack t pc p)) = localTracks p)"
  by (auto simp: RemoveTrack_def)

theorem RemoveTrack_behaviour_witness:
  "rtpSenderByTrack (snd (AddTrack 7 (Inr 3) (newTrackListener ''pub1''))) 7 = Some 3 \<and>
   fst (RemoveTrack 7 (Some ''rejected'')
          (snd (AddTrack 7 (Inr 3) (newTrackListener ''pub1'')))) = Some (DetachFailed ''rejected'') \<and>
   fst (RemoveTrack 7 None (snd (AddTrack 7 (Inr 3) (newTrackListener ''pub1'')))) = None \<and>
   rtpSenderByTrack (newTrackListener ''pub1'') 7 = None \<and>
   RemoveTrack 7 None (newTrackListener ''pub1'')
     = (Some (UnknownTrack ''pub1'' 7), newTrackListener ''pub1'')"
  using RemoveTrack_behaviour
          [where p = "snd (AddTrack 7 (Inr 3) (newTrackListener ''pub1''))" and t = 7
             and s = 3 and pc = "Some ''rejected''"]
        RemoveTrack_behaviour
          [where p = "snd (AddTrack 7 (Inr 3) (newTrackListener ''pub1''))" and t = 7
             and s = 3 and pc = None]
        RemoveTrack_behaviour
          [where p = "newTrackListener ''pub1''" and t = 7 and s = 3 and pc = None]
  by (simp add: AddTrack_def newTrackListener_def)

text \<open>
  C5 as written says the entry is removed exactly on success. It is also removed
  when the peer connection rejects the removal: after a successful \<^verbatim>\<open>AddTrack\<close> of
  track 7, a rejected \<^verbatim>\<open>RemoveTrack\<close> returns the error and the entry is gone.
\<close>

theorem RemoveTrack_entry_removed_on_failure:
  "fst (RemoveTrack 7 (Some ''rejected'')
          (snd (AddTrack 7 (Inr 3) (newTrackListener ''pub1''))))
     = Some (DetachFailed ''rejected'') \<and>
   rtpSenderByTrack (snd (AddTrack 7 (Inr 3) (newTrackListener ''pub1''))) 7 = Some 3 \<and>
   rtpSenderByTrack
     (snd (RemoveTrack 7 (Some ''rejected'')
          (snd (AddTrack 7 (Inr 3) (newTrackListener ''pub1''))))) 7 = None"
  by (simp add: RemoveTrack_def AddTrack_def newTrackListener_def)

section \<open>Lemmas on executions\<close>

lemma in_set_update: "x \<in> set (xs[i := y]) \<Longrightarrow> x = y \<or> x \<in> set xs"
  using set_update_subset_insert [of xs i y] by auto

lemma run_invariant:
  assumes "\<And>s a s'. step s a = Some s' \<Longrightarrow> I s \<Longrightarrow> I s'"
  shows "I s \<Longrightarrow> run s as = Some s' \<Longrightarrow> I s'"
proof (induction as arbitrary: s)
  case Nil
  then show ?case by simp
next
  case (Cons a as)
  then show ?case using assms by (auto split: option.splits)
qed

lemmas exec_defs = init_def newTrackListener_def step_def finish_def handleTrack_start_def
  handleTrack_step_def closer_step_def set_copier_def new_copier_def
  startCopyingTrack_NewTrack_def pli_step_def ticker_tick_def forward_step_def loop_turn_def
  Read_into_def Tracks_def AddTrack_def RemoveTrack_def

section \<open>The close state in reachable states\<close>

lemma Close_step_self:
  "Close_step pc p = Next (pc', p') \<Longrightarrow> close_glob p \<Longrightarrow> close_pc_ok p pc \<Longrightarrow>
   close_glob p' \<and> close_pc_ok p' pc'"
  by (cases pc) (auto simp: close_glob_def split: once_state.splits if_splits)

lemma Close_step_other:
  "Close_step pc p = Next (pc', p') \<Longrightarrow> close_pc_ok p q \<Longrightarrow> close_pc_ok p' q"
  by (cases pc; cases q) (auto split: once_state.splits if_splits)

lemma Close_step_mono:
  "Close_step pc p = Next (pc', p') \<Longrightarrow>
   (tracksChannel_closed p \<longrightarrow> tracksChannel_closed p') \<and>
   localTracks p' = localTracks p \<and> clientID p' = clientID p"
  by (cases pc) (auto split: once_state.splits if_splits)

lemma same_close_fields_glob:
  "same_close_fields p p' \<Longrightarrow> close_glob p' = close_glob p"
  by (simp add: same_close_fields_def close_glob_def)

lemma same_close_fields_pc:
  "same_close_fields p p' \<Longrightarrow> close_pc_ok p' pc = close_pc_ok p pc"
  by (cases pc) (simp_all add: same_close_fields_def)

lemma handleTrack_step_close:
  "handleTrack_step i s = Next s' \<Longrightarrow>
   same_close_fields (listener s) (listener s') \<and> closers s' = closers s"
  by (auto simp: handleTrack_step_def Let_def set_copier_def same_close_fields_def
           split: handler_pc.splits if_splits)

lemma pli_step_close:
  "pli_step i s = Next s' \<Longrightarrow> listener s' = listener s \<and> closers s' = closers s"
  by (auto simp: pli_step_def Let_def set_copier_def split: pli_pc.splits if_splits)

lemma ticker_tick_close:
  "ticker_tick i s = Next s' \<Longrightarrow> listener s' = listener s \<and> closers s' = closers s"
  by (auto simp: ticker_tick_def Let_def set_copier_def split: if_splits)

lemma forward_step_close:
  "forward_step i rr wr s = Next s' \<Longrightarrow>
   same_close_fields (listener s) (listener s') \<and> closers s' = closers s"
  by (auto simp: forward_step_def Let_def set_copier_def same_close_fields_def
           split: fwd_pc.splits if_splits option.splits)

lemma same_close_fields_refl: "same_close_fields p p"
  by (simp add: same_close_fields_def)

lemma other_actions_close:
  assumes "step_action a s = Next s'" "\<And>j. a \<noteq> Closer j"
  shows "same_close_fields (listener s) (listener s') \<and>
         (closers s' = closers s \<or> closers s' = closers s @ [CCall])"
proof (cases a)
  case (OnTrack rt u1 u2 res)
  then show ?thesis using assms(1)
    by (auto simp: handleTrack_start_def Let_def same_close_fields_def split: sum.splits)
next
  case (Handler i)
  then show ?thesis using assms(1) handleTrack_step_close [of i s s']
    by (simp split: if_splits)
next
  case (PLI i)
  then show ?thesis using assms(1) pli_step_close [of i s s']
    by (simp add: same_close_fields_refl split: if_splits)
next
  case (Tick i)
  then show ?thesis using assms(1) ticker_tick_close [of i s s']
    by (simp add: same_close_fields_refl split: if_splits)
next
  case (Forward i rr wr)
  then show ?thesis using assms(1) forward_step_close [of i rr wr s s']
    by (simp split: if_splits)
next
  case CallClose
  then show ?thesis using assms(1) by (auto simp: same_close_fields_def)
next
  case (Closer j)
  then show ?thesis using assms(2) by simp
next
  case (CallAddTrack t res)
  then show ?thesis using assms(1)
    by (auto simp: AddTrack_def same_close_fields_def split: if_splits sum.splits)
next
  case (CallRemoveTrack t pc)
  then show ?thesis using assms(1)
    by (auto simp: RemoveTrack_def same_close_fields_def split: if_splits option.splits)
next
  case CallTracks
  then show ?thesis using assms(1) by (auto simp: same_close_fields_def)
qed

lemma closer_step_inv:
  assumes "closer_step j s = Next s'" "j < length (closers s)" "close_inv s"
  shows "close_inv s'"
proof -
  obtain pc' p' where st: "Close_step (closers s ! j) (listener s) = Next (pc', p')"
    and s': "s' = s\<lparr>listener := p', closers := (closers s)[j := pc']\<rparr>"
    using assms(1) by (auto simp: closer_step_def split: outcome.splits)
  have mem: "closers s ! j \<in> set (closers s)" using assms(2) by simp
  have g: "close_glob (listener s)" and all: "\<forall>pc \<in> set (closers s). close_pc_ok (listener s) pc"
    using assms(3) by (simp_all add: close_inv_def)
  from Close_step_self [OF st g] all mem
  have self: "close_glob p'" "close_pc_ok p' pc'" by auto
  have "close_pc_ok p' q" if "q \<in> set ((closers s)[j := pc'])" for q
    using in_set_update [OF that] self(2) Close_step_other [OF st] all by auto
  then show ?thesis using self(1) by (simp add: close_inv_def s')
qed

lemma close_inv_step:
  assumes "step s a = Some s'" "close_inv s"
  shows "close_inv s'"
proof (cases "step_action a s")
  case Blocked
  then show ?thesis using assms(1) by (simp add: step_def finish_def split: if_splits)
next
  case Panic
  then have "s' = s\<lparr>panicked := True\<rparr>"
    using assms(1) by (simp add: step_def finish_def split: if_splits)
  then show ?thesis using assms(2) by (simp add: close_inv_def)
next
  case (Next t)
  then have t: "s' = t" using assms(1) by (simp add: step_def finish_def split: if_splits)
  show ?thesis
  proof (cases "\<exists>j. a = Closer j")
    case True
    then obtain j where "a = Closer j" by blast
    then show ?thesis using Next t closer_step_inv [of j s s'] assms(2)
      by (simp split: if_splits)
  next
    case False
    then have o: "same_close_fields (listener s) (listener s')"
      "closers s' = closers s \<or> closers s' = closers s @ [CCall]"
      using other_actions_close [of a s s'] Next t by auto
    have "close_pc_ok (listener s') q" if "q \<in> set (closers s')" for q
    proof (cases "q \<in> set (closers s)")
      case True
      then show ?thesis using assms(2) same_close_fields_pc [OF o(1)]
        by (simp add: close_inv_def)
    next
      case False
      then have "q = CCall" using that o(2) by auto
      then show ?thesis by simp
    qed
    then show ?thesis using assms(2) same_close_fields_glob [OF o(1)]
      by (simp add: close_inv_def)
  qed
qed

lemma close_inv_init: "close_inv (init cid)"
  by (simp add: close_inv_def close_glob_def init_def newTrackListener_def)

lemma close_inv_reachable: "run (init cid) as = Some s \<Longrightarrow> close_inv s"
proof -
  assume r: "run (init cid) as = Some s"
  show "close_inv s"
  proof (rule run_invariant [where I = close_inv])
    show "\<And>s a s'. step s a = Some s' \<Longrightarrow> close_inv s \<Longrightarrow> close_inv s'"
      by (rule close_inv_step)
    show "close_inv (init cid)" by (rule close_inv_init)
    show "run (init cid) as = Some s" by (rule r)
  qed
qed

lemma closed_channel_step_action:
  assumes "step_action a s = Next s'" "tracksChannel_closed (listener s)"
  shows "events_received s' = events_received s \<and> tracksChannel_closed (listener s')"
proof (cases a)
  case (OnTrack rt u1 u2 res)
  then show ?thesis using assms
    by (auto simp: handleTrack_start_def Let_def split: sum.splits)
next
  case (Handler i)
  then show ?thesis using assms
    by (auto simp: handleTrack_step_def Let_def set_copier_def split: handler_pc.splits if_splits)
next
  case (PLI i)
  then show ?thesis using assms
    by (auto simp: pli_step_def Let_def set_copier_def split: pli_pc.splits if_splits)
next
  case (Tick i)
  then show ?thesis using assms
    by (auto simp: ticker_tick_def Let_def set_copier_def split: if_splits)
next
  case (Forward i rr wr)
  then show ?thesis using assms
    by (auto simp: forward_step_def Let_def set_copier_def
             split: fwd_pc.splits if_splits option.splits)
next
  case CallClose
  then show ?thesis using assms by auto
next
  case (Closer j)
  then show ?thesis using assms
    by (auto simp: closer_step_def split: if_splits outcome.splits dest: Close_step_mono)
next
  case (CallAddTrack t res)
  then show ?thesis using assms by (auto simp: AddTrack_def split: if_splits sum.splits)
next
  case (CallRemoveTrack t pc)
  then show ?thesis using assms by (auto simp: RemoveTrack_def split: if_splits option.splits)
next
  case CallTracks
  then show ?thesis using assms by auto
qed

lemma closed_channel_step:
  assumes "step s a = Some s'" "tracksChannel_closed (listener s)"
  shows "events_received s' = events_received s \<and> tracksChannel_closed (listener s')"
proof (cases "step_action a s")
  case Blocked
  then show ?thesis using assms(1) by (simp add: step_def finish_def split: if_splits)
next
  case Panic
  then have "s' = s\<lparr>panicked := True\<rparr>"
    using assms(1) by (simp add: step_def finish_def split: if_splits)
  then show ?thesis using assms(2) by simp
next
  case (Next t)
  then have "s' = t" using assms(1) by (simp add: step_def finish_def split: if_splits)
  then show ?thesis using Next closed_channel_step_action [of a s s'] assms(2) by simp
qed

lemma closed_channel_run:
  "run s as = Some s' \<Longrightarrow> tracksChannel_closed (listener s) \<Longrightarrow>
   events_received s' = events_received s"
proof (induction as arbitrary: s)
  case Nil
  then show ?case by simp
next
  case (Cons a as)
  then obtain t where t: "step s a = Some t" "run t as = Some s'"
    by (auto split: option.splits)
  from closed_channel_step [OF t(1) Cons.prems(2)] Cons.IH [OF t(2)]
  show ?case by simp
qed

lemma Close_returned_closed:
  assumes "run (init cid) as = Some s" "CReturned \<in> set (closers s)"
  shows "tracksChannel_closed (listener s) \<and> tracksChannelClosed (listener s) \<and>
         closeChannel_closed (listener s)"
proof -
  have inv: "close_inv s" using assms(1) by (rule close_inv_reachable)
  then have "close_pc_ok (listener s) CReturned" using assms(2) by (auto simp: close_inv_def)
  then show ?thesis using inv by (simp add: close_inv_def close_glob_def)
qed

text \<open>
  C1. In every execution from a new listener, once some call of \<^verbatim>\<open>Close\<close> has returned,
  whatever steps follow (handlers, forwarding goroutines in their exit path, anything
  else), the router receives no further event: the sequence of events received stays as
  it was. A send attempted after that point either is skipped (the exit path of a
  forwarding goroutine sees the flag) or panics on the closed channel (the handler);
  neither delivers an event.
\<close>

theorem no_event_after_Close:
  assumes "run (init cid) as = Some s" "CReturned \<in> set (closers s)" "run s bs = Some s'"
  shows "events_received s' = events_received s"
  using closed_channel_run [OF assms(3)] Close_returned_closed [OF assms(1,2)] by simp

theorem no_event_after_Close_witness:
  "run (init ''pub1'')
     [OnTrack \<lparr>rt_ID = ''vid'', rt_Label = ''stream-A'', rt_PayloadType = 96, rt_SSRC = 12345\<rparr>
        [] [] (Inr 1),
      Handler 0, Handler 0, Handler 0, Handler 0,
      CallClose, Closer 0, Closer 0, Closer 0, Closer 0, Closer 0, Closer 0, Closer 0] \<noteq> None \<and>
   CReturned \<in> set (closers (the (run (init ''pub1'')
     [OnTrack \<lparr>rt_ID = ''vid'', rt_Label = ''stream-A'', rt_PayloadType = 96, rt_SSRC = 12345\<rparr>
        [] [] (Inr 1),
      Handler 0, Handler 0, Handler 0, Handler 0,
      CallClose, Closer 0, Closer 0, Closer 0, Closer 0, Closer 0, Closer 0, Closer 0]))) \<and>
   map_option events_received (run (the (run (init ''pub1'')
     [OnTrack \<lparr>rt_ID = ''vid'', rt_Label = ''stream-A'', rt_PayloadType = 96, rt_SSRC = 12345\<rparr>
        [] [] (Inr 1),
      Handler 0, Handler 0, Handler 0, Handler 0,
      CallClose, Closer 0, Closer 0, Closer 0, Closer 0, Closer 0, Closer 0, Closer 0]))
     [Forward 0 (ReadErr ''EOF'') WriteOk, Forward 0 (ReadErr ''EOF'') WriteOk,
      Forward 0 (ReadErr ''EOF'') WriteOk, Forward 0 (ReadErr ''EOF'') WriteOk,
      Forward 0 (ReadErr ''EOF'') WriteOk])
   = Some [\<lparr>ClientID = ''pub1'', Track = 1, Type = TrackEventTypeAdd\<rparr>]"
proof -
  let ?as = "[OnTrack \<lparr>rt_ID = ''vid'', rt_Label = ''stream-A'', rt_PayloadType = 96, rt_SSRC = 12345\<rparr>
        [] [] (Inr 1),
      Handler 0, Handler 0, Handler 0, Handler 0,
      CallClose, Closer 0, Closer 0, Closer 0, Closer 0, Closer 0, Closer 0, Closer 0]"
  let ?bs = "[Forward 0 (ReadErr ''EOF'') WriteOk, Forward 0 (ReadErr ''EOF'') WriteOk,
      Forward 0 (ReadErr ''EOF'') WriteOk, Forward 0 (ReadErr ''EOF'') WriteOk,
      Forward 0 (ReadErr ''EOF'') WriteOk]"
  obtain s where 1: "run (init ''pub1'') ?as = Some s" by (simp add: exec_defs)
  have 2: "CReturned \<in> set (closers s)" using 1 by (auto simp: exec_defs)
  obtain s' where 3: "run s ?bs = Some s'" using 1 by (auto simp: exec_defs)
  have 4: "events_received s = [\<lparr>ClientID = ''pub1'', Track = 1, Type = TrackEventTypeAdd\<rparr>]"
    using 1 by (auto simp: exec_defs)
  have 5: "events_received s' = events_received s"
    by (rule no_event_after_Close [OF 1 2 3])
  show ?thesis unfolding 1 using 2 3 4 5 by (simp del: run.simps)
qed

section \<open>Close is idempotent\<close>

lemma Close_closed_form:
  "Close p =
     (case closeOnce p of
        OnceDone \<Rightarrow> Next p
      | OnceRunning \<Rightarrow> Blocked
      | OnceIdle \<Rightarrow>
          if closeChannel_closed p then Panic
          else if mu_writer p \<or> 0 < mu_readers p then Blocked
          else if tracksChannel_closed p then Panic
          else Next (p\<lparr>closeOnce := OnceDone, closeChannel_closed := True,
                       tracksChannel_closed := True, tracksChannelClosed := True,
                       mu_writer := False\<rparr>))"
  by (simp add: Close_def eval_nat_numeral split: once_state.splits)

lemma Close_again: "Close p = Next p' \<Longrightarrow> Close p' = Next p'"
  by (auto simp: Close_closed_form split: once_state.splits if_splits)

lemma Close_times_after: "Close p = Next p' \<Longrightarrow> Close_times n p' = Next p'"
  by (induction n) (simp_all add: Close_again)

lemma Close_times_once: "0 < n \<Longrightarrow> Close_times n p = Close p"
  by (cases n) (auto simp: Close_times_after split: outcome.splits)

text \<open>
  C8. Calling \<^verbatim>\<open>Close\<close> any number of times, at least once, gives what one call gives
  (the same listener state, or the same wait or panic). A first call on a listener whose
  once is unused, whose channels are open and whose \<^verbatim>\<open>mu\<close> is free returns, with both
  channels closed, the flag set and the once done, and nothing else changed; it waits
  when \<^verbatim>\<open>mu\<close> is held, and a call waits while the once is running. A call that finds the
  once done returns with the listener as it was. The work is done in this order: the
  close channel is closed before the events channel, and the flag is set after that; in
  every reachable state, a closed events channel means the close channel is closed, and
  a set flag means the events channel is closed.
\<close>

theorem Close_idempotent_and_ordered:
  "(0 < n \<longrightarrow> Close_times n p = Close p) \<and>
   (closeOnce p = OnceIdle \<and> \<not> closeChannel_closed p \<and> \<not> tracksChannel_closed p \<and>
    \<not> mu_writer p \<and> mu_readers p = 0 \<longrightarrow>
      Close p = Next (p\<lparr>closeOnce := OnceDone, closeChannel_closed := True,
                        tracksChannel_closed := True, tracksChannelClosed := True,
                        mu_writer := False\<rparr>)) \<and>
   (closeOnce p = OnceIdle \<and> \<not> closeChannel_closed p \<and> (mu_writer p \<or> 0 < mu_readers p) \<longrightarrow>
      Close p = Blocked) \<and>
   (closeOnce p = OnceRunning \<longrightarrow> Close p = Blocked) \<and>
   (closeOnce p = OnceIdle \<and> Close p = Next p' \<longrightarrow>
      closeChannel_closed p' \<and> tracksChannel_closed p' \<and> tracksChannelClosed p' \<and>
      closeOnce p' = OnceDone) \<and>
   (closeOnce p = OnceDone \<longrightarrow> Close p = Next p) \<and>
   (run (init cid) as = Some s \<longrightarrow>
      (tracksChannel_closed (listener s) \<longrightarrow> closeChannel_closed (listener s)) \<and>
      (tracksChannelClosed (listener s) \<longrightarrow> tracksChannel_closed (listener s)))"
proof -
  have "close_glob (listener s)" if "run (init cid) as = Some s"
    using close_inv_reachable [OF that] by (simp add: close_inv_def)
  moreover have "closeChannel_closed p' \<and> tracksChannel_closed p' \<and> tracksChannelClosed p' \<and>
      closeOnce p' = OnceDone" if "closeOnce p = OnceIdle" "Close p = Next p'"
    using that by (auto simp: Close_closed_form split: if_splits)
  moreover have "Close p = Next p" if "closeOnce p = OnceDone"
    using that by (simp add: Close_closed_form)
  moreover have "Close p = Next (p\<lparr>closeOnce := OnceDone, closeChannel_closed := True,
                        tracksChannel_closed := True, tracksChannelClosed := True,
                        mu_writer := False\<rparr>)"
    if "closeOnce p = OnceIdle" "\<not> closeChannel_closed p" "\<not> tracksChannel_closed p"
      "\<not> mu_writer p" "mu_readers p = 0"
    using that by (simp add: Close_closed_form)
  moreover have "Close p = Blocked"
    if "closeOnce p = OnceIdle" "\<not> closeChannel_closed p" "mu_writer p \<or> 0 < mu_readers p"
    using that by (auto simp: Close_closed_form)
  moreover have "Close p = Blocked" if "closeOnce p = OnceRunning"
    using that by (simp add: Close_closed_form)
  ultimately show ?thesis by (auto simp: Close_times_once close_glob_def)
qed

theorem Close_idempotent_and_ordered_witness:
  "(0::nat) < 3 \<and>
   closeOnce ((newTrackListener ''pub1'')\<lparr>localTracks := [1, 2]\<rparr>) = OnceIdle \<and>
   Close_times 3 ((newTrackListener ''pub1'')\<lparr>localTracks := [1, 2]\<rparr>)
     = Next ((newTrackListener ''pub1'')
         \<lparr>localTracks := [1, 2], tracksChannel_closed := True, tracksChannelClosed := True,
          closeChannel_closed := True, closeOnce := OnceDone\<rparr>) \<and>
   Close ((newTrackListener ''pub1'')\<lparr>localTracks := [1, 2]\<rparr>)
     = Next ((newTrackListener ''pub1'')
         \<lparr>localTracks := [1, 2], tracksChannel_closed := True, tracksChannelClosed := True,
          closeChannel_closed := True, closeOnce := OnceDone\<rparr>) \<and>
   Close ((newTrackListener ''pub1'')\<lparr>localTracks := [1, 2], mu_readers := 1\<rparr>) = Blocked \<and>
   run (init ''pub1'') [OnTrack \<lparr>rt_ID = ''vid'', rt_Label = ''stream-A'', rt_PayloadType = 96, rt_SSRC = 12345\<rparr> [] [] (Inr 1), Handler 0, Handler 0, Handler 0, Handler 0,
      CallClose, Closer 0, Closer 0, Closer 0, Closer 0, Closer 0] \<noteq> None \<and>
   tracksChannelClosed (listener (the (run (init ''pub1'')
     [OnTrack \<lparr>rt_ID = ''vid'', rt_Label = ''stream-A'', rt_PayloadType = 96, rt_SSRC = 12345\<rparr> [] [] (Inr 1), Handler 0, Handler 0, Handler 0, Handler 0,
      CallClose, Closer 0, Closer 0, Closer 0, Closer 0, Closer 0]))) \<and>
   tracksChannel_closed (listener (the (run (init ''pub1'')
     [OnTrack \<lparr>rt_ID = ''vid'', rt_Label = ''stream-A'', rt_PayloadType = 96, rt_SSRC = 12345\<rparr> [] [] (Inr 1), Handler 0, Handler 0, Handler 0, Handler 0,
      CallClose, Closer 0, Closer 0, Closer 0, Closer 0, Closer 0]))) \<and>
   closeChannel_closed (listener (the (run (init ''pub1'')
     [OnTrack \<lparr>rt_ID = ''vid'', rt_Label = ''stream-A'', rt_PayloadType = 96, rt_SSRC = 12345\<rparr> [] [] (Inr 1), Handler 0, Handler 0, Handler 0, Handler 0,
      CallClose, Closer 0, Closer 0, Closer 0, Closer 0, Closer 0])))"
proof -
  let ?as = "[OnTrack \<lparr>rt_ID = ''vid'', rt_Label = ''stream-A'', rt_PayloadType = 96, rt_SSRC = 12345\<rparr> [] [] (Inr 1), Handler 0, Handler 0, Handler 0, Handler 0,
      CallClose, Closer 0, Closer 0, Closer 0, Closer 0, Closer 0]"
  let ?p = "(newTrackListener ''pub1'')\<lparr>localTracks := [1, 2]\<rparr>"
  let ?p' = "(newTrackListener ''pub1'')
         \<lparr>localTracks := [1, 2], tracksChannel_closed := True, tracksChannelClosed := True,
          closeChannel_closed := True, closeOnce := OnceDone\<rparr>"
  let ?q = "(newTrackListener ''pub1'')\<lparr>localTracks := [1, 2], mu_readers := 1\<rparr>"
  obtain s where 1: "run (init ''pub1'') ?as = Some s" by (simp add: exec_defs)
  have 2: "tracksChannelClosed (listener s)" using 1 by (auto simp: exec_defs)
  have 3: "closeOnce ?p = OnceIdle" "\<not> closeChannel_closed ?p" "\<not> tracksChannel_closed ?p"
    "\<not> mu_writer ?p" "mu_readers ?p = 0"
    "closeOnce ?q = OnceIdle" "\<not> closeChannel_closed ?q" "0 < mu_readers ?q"
    by (simp_all add: newTrackListener_def)
  from Close_idempotent_and_ordered
         [where n = 3 and p = ?p and p' = ?p' and cid = "''pub1''" and as = ?as and s = s]
       Close_idempotent_and_ordered
         [where n = 3 and p = ?q and p' = ?p' and cid = "''pub1''" and as = ?as and s = s]
  show ?thesis unfolding 1 using 1 2 3 by (simp del: run.simps add: newTrackListener_def)
qed

section \<open>The local tracks and the add events\<close>

lemma step_cases:
  assumes "step s a = Some s'"
  obtains (panic) "step_action a s = Panic" and "s' = s\<lparr>panicked := True\<rparr>"
        | (moved) "step_action a s = Next s'"
  using assms by (auto simp: step_def finish_def split: if_splits outcome.splits)

lemma localTracks_step_action:
  assumes "step_action a s = Next s'"
  shows "localTracks (listener s') = localTracks (listener s) \<or>
         (\<exists>i. a = Handler i \<and> i < length (copiers s) \<and> handler (copiers s ! i) = HAppend \<and>
              localTracks (listener s') = localTracks (listener s) @ [localTrack (copiers s ! i)])"
proof (cases a)
  case (OnTrack rt u1 u2 res)
  then show ?thesis using assms
    by (auto simp: handleTrack_start_def Let_def split: sum.splits)
next
  case (Handler i)
  then show ?thesis using assms
    by (auto simp: handleTrack_step_def Let_def set_copier_def split: handler_pc.splits if_splits)
next
  case (PLI i)
  then show ?thesis using assms
    by (auto simp: pli_step_def Let_def set_copier_def split: pli_pc.splits if_splits)
next
  case (Tick i)
  then show ?thesis using assms
    by (auto simp: ticker_tick_def Let_def set_copier_def split: if_splits)
next
  case (Forward i rr wr)
  then show ?thesis using assms
    by (auto simp: forward_step_def Let_def set_copier_def
             split: fwd_pc.splits if_splits option.splits)
next
  case CallClose
  then show ?thesis using assms by auto
next
  case (Closer j)
  then show ?thesis using assms
    by (auto simp: closer_step_def split: if_splits outcome.splits dest: Close_step_mono)
next
  case (CallAddTrack t res)
  then show ?thesis using assms by (auto simp: AddTrack_def split: if_splits sum.splits)
next
  case (CallRemoveTrack t pc)
  then show ?thesis using assms by (auto simp: RemoveTrack_def split: if_splits option.splits)
next
  case CallTracks
  then show ?thesis using assms by auto
qed

lemma localTracks_step:
  assumes "step s a = Some s'"
  shows "localTracks (listener s') = localTracks (listener s) \<or>
         (\<exists>i. a = Handler i \<and> i < length (copiers s) \<and> handler (copiers s ! i) = HAppend \<and>
              localTracks (listener s') = localTracks (listener s) @ [localTrack (copiers s ! i)])"
  using assms
proof (cases rule: step_cases)
  case panic
  then show ?thesis by simp
next
  case moved
  then show ?thesis by (rule localTracks_step_action)
qed

lemma localTracks_run:
  "run s as = Some s' \<Longrightarrow> \<exists>ts. localTracks (listener s') = localTracks (listener s) @ ts"
proof (induction as arbitrary: s)
  case Nil
  then show ?case by simp
next
  case (Cons a as)
  then obtain t where t: "step s a = Some t" "run t as = Some s'"
    by (auto split: option.splits)
  from localTracks_step [OF t(1)] Cons.IH [OF t(2)] show ?case by auto
qed

lemma add_inv_handler:
  assumes "handleTrack_step i s = Next s'" "i < length (copiers s)" "add_inv s"
  shows "add_inv s'"
proof -
  have mem: "copiers s ! i \<in> set (copiers s)" using assms(2) by simp
  show ?thesis
    using assms(1,3) mem
    by (cases "handler (copiers s ! i)")
       (auto simp: handleTrack_step_def Let_def set_copier_def add_inv_def
             split: if_splits dest!: in_set_update)
qed

lemma add_inv_forward:
  assumes "forward_step i rr wr s = Next s'" "i < length (copiers s)" "add_inv s"
  shows "add_inv s'"
proof -
  have mem: "copiers s ! i \<in> set (copiers s)" using assms(2) by simp
  show ?thesis
    using assms(1,3) mem
    by (cases "fwd (copiers s ! i)")
       (auto simp: forward_step_def Let_def set_copier_def add_inv_def
             split: if_splits option.splits dest!: in_set_update)
qed

lemma add_inv_pli:
  assumes "pli_step i s = Next s'" "i < length (copiers s)" "add_inv s"
  shows "add_inv s'"
proof -
  have mem: "copiers s ! i \<in> set (copiers s)" using assms(2) by simp
  show ?thesis
    using assms(1,3) mem
    by (cases "pli (copiers s ! i)")
       (auto simp: pli_step_def Let_def set_copier_def add_inv_def
             split: if_splits dest!: in_set_update)
qed

lemma add_inv_tick:
  assumes "ticker_tick i s = Next s'" "i < length (copiers s)" "add_inv s"
  shows "add_inv s'"
proof -
  have mem: "copiers s ! i \<in> set (copiers s)" using assms(2) by simp
  show ?thesis
    using assms(1,3) mem
    by (auto simp: ticker_tick_def Let_def set_copier_def add_inv_def
             split: if_splits dest!: in_set_update)
qed

lemma add_inv_step_action:
  assumes "step_action a s = Next s'" "add_inv s"
  shows "add_inv s'"
proof (cases a)
  case (OnTrack rt u1 u2 res)
  then show ?thesis using assms
    by (auto simp: handleTrack_start_def Let_def add_inv_def new_copier_def split: sum.splits)
next
  case (Handler i)
  then show ?thesis using assms add_inv_handler [of i s s'] by (simp split: if_splits)
next
  case (PLI i)
  then show ?thesis using assms add_inv_pli [of i s s'] by (simp split: if_splits)
next
  case (Tick i)
  then show ?thesis using assms add_inv_tick [of i s s'] by (simp split: if_splits)
next
  case (Forward i rr wr)
  then show ?thesis using assms add_inv_forward [of i rr wr s s'] by (simp split: if_splits)
next
  case CallClose
  then show ?thesis using assms by (auto simp: add_inv_def)
next
  case (Closer j)
  then show ?thesis using assms
    by (auto simp: closer_step_def add_inv_def split: if_splits outcome.splits
             dest!: Close_step_mono)
next
  case (CallAddTrack t res)
  then show ?thesis using assms
    by (auto simp: AddTrack_def add_inv_def split: if_splits sum.splits)
next
  case (CallRemoveTrack t pc)
  then show ?thesis using assms
    by (auto simp: RemoveTrack_def add_inv_def split: if_splits option.splits)
next
  case CallTracks
  then show ?thesis using assms by (auto simp: add_inv_def)
qed

lemma add_inv_step:
  assumes "step s a = Some s'" "add_inv s"
  shows "add_inv s'"
  using assms(1)
proof (cases rule: step_cases)
  case panic
  then show ?thesis using assms(2) by (simp add: add_inv_def)
next
  case moved
  then show ?thesis using assms(2) by (rule add_inv_step_action)
qed

lemma add_inv_reachable:
  assumes "run (init cid) as = Some s"
  shows "add_inv s"
proof (rule run_invariant [where I = add_inv])
  show "\<And>s a s'. step s a = Some s' \<Longrightarrow> add_inv s \<Longrightarrow> add_inv s'" by (rule add_inv_step)
  show "add_inv (init cid)" by (simp add: add_inv_def init_def)
  show "run (init cid) as = Some s" by (rule assms)
qed

text \<open>
  C10. In every execution from a new listener: the track of every add event the router
  has received is in \<^verbatim>\<open>localTracks\<close>, so \<^verbatim>\<open>Tracks()\<close> called then or at any later point
  of the execution returns a list that holds it; \<^verbatim>\<open>localTracks\<close> only grows, and a step
  that changes it is the append of a handler; \<^verbatim>\<open>AddTrack\<close> and \<^verbatim>\<open>RemoveTrack\<close> leave it
  as it is.
\<close>

theorem Add_event_track_in_Tracks:
  assumes "run (init cid) as = Some s" "run s bs = Some s'"
  shows "(\<forall>e \<in> set (events_received s).
            Type e = TrackEventTypeAdd \<longrightarrow> Track e \<in> set (Tracks (listener s'))) \<and>
         (\<exists>ts. localTracks (listener s') = localTracks (listener s) @ ts) \<and>
         (\<forall>a t. step s a = Some t \<longrightarrow>
            localTracks (listener t) = localTracks (listener s) \<or>
            (\<exists>i. a = Handler i \<and> i < length (copiers s) \<and> handler (copiers s ! i) = HAppend \<and>
                 localTracks (listener t) = localTracks (listener s) @ [localTrack (copiers s ! i)])) \<and>
         localTracks (snd (AddTrack tr res p)) = localTracks p \<and>
         localTracks (snd (RemoveTrack tr pc p)) = localTracks p"
proof -
  obtain ts where ts: "localTracks (listener s') = localTracks (listener s) @ ts"
    using localTracks_run [OF assms(2)] by blast
  have "Track e \<in> set (Tracks (listener s'))"
    if "e \<in> set (events_received s)" "Type e = TrackEventTypeAdd" for e
    using add_inv_reachable [OF assms(1)] that ts by (auto simp: add_inv_def Tracks_def)
  moreover have "localTracks (snd (AddTrack tr res p)) = localTracks p"
    by (simp add: AddTrack_def split: sum.splits)
  moreover have "localTracks (snd (RemoveTrack tr pc p)) = localTracks p"
    by (simp add: RemoveTrack_def split: option.splits)
  ultimately show ?thesis using ts localTracks_step [of s] by blast
qed

theorem Add_event_track_in_Tracks_witness:
  "run (init ''pub1'')
     [OnTrack \<lparr>rt_ID = ''vid'', rt_Label = ''stream-A'', rt_PayloadType = 96, rt_SSRC = 12345\<rparr>
        [] [] (Inr 1),
      Handler 0, Handler 0, Handler 0, Handler 0] \<noteq> None \<and>
   events_received (the (run (init ''pub1'')
     [OnTrack \<lparr>rt_ID = ''vid'', rt_Label = ''stream-A'', rt_PayloadType = 96, rt_SSRC = 12345\<rparr>
        [] [] (Inr 1),
      Handler 0, Handler 0, Handler 0, Handler 0]))
     = [\<lparr>ClientID = ''pub1'', Track = 1, Type = TrackEventTypeAdd\<rparr>] \<and>
   map_option (\<lambda>s. Tracks (listener s)) (run (the (run (init ''pub1'')
     [OnTrack \<lparr>rt_ID = ''vid'', rt_Label = ''stream-A'', rt_PayloadType = 96, rt_SSRC = 12345\<rparr>
        [] [] (Inr 1),
      Handler 0, Handler 0, Handler 0, Handler 0]))
     [CallAddTrack 9 (Inr 4), CallRemoveTrack 9 None,
      OnTrack \<lparr>rt_ID = ''aud'', rt_Label = ''stream-A'', rt_PayloadType = 111, rt_SSRC = 777\<rparr>
        [] [] (Inr 2),
      Handler 1, Handler 1]) = Some [1, 2]"
proof -
  let ?as = "[OnTrack \<lparr>rt_ID = ''vid'', rt_Label = ''stream-A'', rt_PayloadType = 96, rt_SSRC = 12345\<rparr>
        [] [] (Inr 1),
      Handler 0, Handler 0, Handler 0, Handler 0]"
  let ?bs = "[CallAddTrack 9 (Inr 4), CallRemoveTrack 9 None,
      OnTrack \<lparr>rt_ID = ''aud'', rt_Label = ''stream-A'', rt_PayloadType = 111, rt_SSRC = 777\<rparr>
        [] [] (Inr 2),
      Handler 1, Handler 1]"
  obtain s where 1: "run (init ''pub1'') ?as = Some s" by (simp add: exec_defs)
  obtain s' where 2: "run s ?bs = Some s'" using 1 by (auto simp: exec_defs)
  have 3: "events_received s = [\<lparr>ClientID = ''pub1'', Track = 1, Type = TrackEventTypeAdd\<rparr>]"
    using 1 by (auto simp: exec_defs)
  have 4: "Tracks (listener s') = [1, 2]" using 1 2 by (auto simp: exec_defs)
  from Add_event_track_in_Tracks [OF 1 2]
  show ?thesis unfolding 1 using 2 3 4 by (simp del: run.simps)
qed

section \<open>The forwarding loop\<close>









section \<open>The exit of the forwarding goroutine\<close>
































section \<open>The names of the local track\<close>

text \<open>
  C7. The local track is created with id \<^verbatim>\<open>"sfu_"\<close> followed by the remote id and label
  \<^verbatim>\<open>"sfu_"\<close>, the client id, \<^verbatim>\<open>"_"\<close> and the remote label, with the payload type and
  SSRC of the remote track, where an empty remote id or label is replaced by the result
  of \<^verbatim>\<open>NewUUIDBase62\<close>. The generator is asked only for a value that is empty, and only
  of such a call is its result supposed to be a non-empty base-62 string: a remote id or
  label that is not empty is used as it is, whatever the generator would return. These
  are the arguments of the one call of \<^verbatim>\<open>NewTrack\<close> the handler makes.
\<close>

theorem local_track_names:
  assumes "rt_ID rt = [] \<Longrightarrow> is_UUIDBase62 uuid_id"
    and "rt_Label rt = [] \<Longrightarrow> is_UUIDBase62 uuid_label"
  shows "nt_id (startCopyingTrack_NewTrack cid rt uuid_id uuid_label) =
           ''sfu_'' @ (if rt_ID rt = [] then uuid_id else rt_ID rt) \<and>
         nt_label (startCopyingTrack_NewTrack cid rt uuid_id uuid_label) =
           ''sfu_'' @ cid @ ''_'' @ (if rt_Label rt = [] then uuid_label else rt_Label rt) \<and>
         (if rt_ID rt = [] then uuid_id else rt_ID rt) \<noteq> [] \<and>
         (if rt_Label rt = [] then uuid_label else rt_Label rt) \<noteq> [] \<and>
         (rt_ID rt = [] \<longrightarrow>
            (\<exists>u. is_UUIDBase62 u \<and>
               nt_id (startCopyingTrack_NewTrack cid rt uuid_id uuid_label) = ''sfu_'' @ u)) \<and>
         (rt_Label rt = [] \<longrightarrow>
            (\<exists>u. is_UUIDBase62 u \<and>
               nt_label (startCopyingTrack_NewTrack cid rt uuid_id uuid_label) =
                 ''sfu_'' @ cid @ ''_'' @ u)) \<and>
         nt_payloadType (startCopyingTrack_NewTrack cid rt uuid_id uuid_label) = rt_PayloadType rt \<and>
         nt_ssrc (startCopyingTrack_NewTrack cid rt uuid_id uuid_label) = rt_SSRC rt \<and>
         pc_calls (handleTrack_start rt uuid_id uuid_label res s) =
           pc_calls s @
             [NewTrack_call (startCopyingTrack_NewTrack (clientID (listener s)) rt uuid_id uuid_label)]"
  using assms
  by (auto simp: startCopyingTrack_NewTrack_def handleTrack_start_def Let_def is_UUIDBase62_def
           split: sum.splits)

theorem local_track_names_witness:
  "is_UUIDBase62 ''5HqZ'' \<and> is_UUIDBase62 ''k09A'' \<and>
   startCopyingTrack_NewTrack ''pub1''
     \<lparr>rt_ID = [], rt_Label = [], rt_PayloadType = 96, rt_SSRC = 12345\<rparr> ''5HqZ'' ''k09A''
   = \<lparr>nt_payloadType = 96, nt_ssrc = 12345, nt_id = ''sfu_5HqZ'', nt_label = ''sfu_pub1_k09A''\<rparr> \<and>
   startCopyingTrack_NewTrack ''pub1''
     \<lparr>rt_ID = ''vid'', rt_Label = ''stream-A'', rt_PayloadType = 96, rt_SSRC = 12345\<rparr> [] []
   = \<lparr>nt_payloadType = 96, nt_ssrc = 12345, nt_id = ''sfu_vid'',
      nt_label = ''sfu_pub1_stream-A''\<rparr> \<and>
   startCopyingTrack_NewTrack ''pub1''
     \<lparr>rt_ID = ''vid'', rt_Label = [], rt_PayloadType = 96, rt_SSRC = 12345\<rparr> [] ''k09A''
   = \<lparr>nt_payloadType = 96, nt_ssrc = 12345, nt_id = ''sfu_vid'',
      nt_label = ''sfu_pub1_k09A''\<rparr>"
proof -
  have u: "is_UUIDBase62 ''5HqZ''" "is_UUIDBase62 ''k09A''"
    by (simp_all add: is_UUIDBase62_def base62_chars_def)
  from local_track_names
         [where cid = "''pub1''" and uuid_id = "''5HqZ''" and uuid_label = "''k09A''"
            and rt = "\<lparr>rt_ID = [], rt_Label = [], rt_PayloadType = 96, rt_SSRC = 12345\<rparr>",
          OF u]
       local_track_names
         [where cid = "''pub1''" and uuid_id = "[]" and uuid_label = "[]"
            and rt = "\<lparr>rt_ID = ''vid'', rt_Label = ''stream-A'', rt_PayloadType = 96,
                        rt_SSRC = 12345\<rparr>"]
       local_track_names
         [where cid = "''pub1''" and uuid_id = "[]" and uuid_label = "''k09A''"
            and rt = "\<lparr>rt_ID = ''vid'', rt_Label = [], rt_PayloadType = 96, rt_SSRC = 12345\<rparr>"]
  show ?thesis using u by (simp add: startCopyingTrack_NewTrack_def)
qed

section \<open>The add event and Close\<close>

text \<open>
  C2 at a failing input. A remote track arrives and its local track is created; the
  handler appends it and reaches the send of the add event; the router does not receive;
  \<^verbatim>\<open>Close\<close> is called and returns. The handler's send is a bare send on the events
  channel, which is closed now: the step panics. The handler has not returned, no event
  was delivered, and the program is over.
\<close>

theorem handleTrack_send_panics_after_Close:
  "map_option (\<lambda>s. (panicked s, map handler (copiers s), closers s, events_received s))
     (run (init ''pub1'')
        [OnTrack \<lparr>rt_ID = ''vid'', rt_Label = ''stream-A'', rt_PayloadType = 96, rt_SSRC = 12345\<rparr> [] [] (Inr 1), Handler 0, Handler 0, Handler 0,
         CallClose, Closer 0, Closer 0, Closer 0, Closer 0, Closer 0, Closer 0, Closer 0,
         Handler 0])
     = Some (True, [HSend], [CReturned], [])"
  by (simp add: exec_defs)

section \<open>The PLI goroutine after the forwarding goroutine has returned\<close>

lemma ticker_inv_step_action:
  assumes "step_action a s = Next s'" "ticker_inv s"
  shows "ticker_inv s'"
proof (cases a)
  case (OnTrack rt u1 u2 res)
  then show ?thesis using assms
    by (auto simp: handleTrack_start_def Let_def ticker_inv_def new_copier_def split: sum.splits)
next
  case (Handler i)
  then show ?thesis using assms
    by (auto simp: handleTrack_step_def Let_def set_copier_def ticker_inv_def
             split: handler_pc.splits if_splits dest!: in_set_update)
next
  case (PLI i)
  then show ?thesis using assms
    by (auto simp: pli_step_def Let_def set_copier_def ticker_inv_def
             split: pli_pc.splits if_splits dest!: in_set_update)
next
  case (Tick i)
  then show ?thesis using assms
    by (auto simp: ticker_tick_def Let_def set_copier_def ticker_inv_def
             split: if_splits dest!: in_set_update)
next
  case (Forward i rr wr)
  then show ?thesis using assms
    by (auto simp: forward_step_def Let_def set_copier_def ticker_inv_def
             split: fwd_pc.splits if_splits option.splits
             dest!: in_set_update)
next
  case CallClose
  then show ?thesis using assms by (auto simp: ticker_inv_def)
next
  case (Closer j)
  then show ?thesis using assms
    by (auto simp: closer_step_def ticker_inv_def split: if_splits outcome.splits)
next
  case (CallAddTrack t res)
  then show ?thesis using assms by (auto simp: ticker_inv_def split: if_splits)
next
  case (CallRemoveTrack t pc)
  then show ?thesis using assms by (auto simp: ticker_inv_def split: if_splits)
next
  case CallTracks
  then show ?thesis using assms by (auto simp: ticker_inv_def)
qed

lemma ticker_inv_step:
  assumes "step s a = Some s'" "ticker_inv s"
  shows "ticker_inv s'"
  using assms(1)
proof (cases rule: step_cases)
  case panic
  then show ?thesis using assms(2) by (simp add: ticker_inv_def)
next
  case moved
  then show ?thesis using assms(2) by (rule ticker_inv_step_action)
qed

lemma PLI_never_returns:
  assumes "run (init cid) as = Some s" "c \<in> set (copiers s)"
  shows "pli c \<noteq> PReturned"
proof -
  have "ticker_inv s"
  proof (rule run_invariant [where I = ticker_inv])
    show "\<And>s a s'. step s a = Some s' \<Longrightarrow> ticker_inv s \<Longrightarrow> ticker_inv s'"
      by (rule ticker_inv_step)
    show "ticker_inv (init cid)" by (simp add: ticker_inv_def init_def)
    show "run (init cid) as = Some s" by (rule assms(1))
  qed
  then show ?thesis using assms(2) by (simp add: ticker_inv_def)
qed

text \<open>
  C3 at a failing input. A remote track arrives; the PLI goroutine writes its first PLI
  and the ticker fires once; the first read of the forwarding goroutine fails, it runs
  its exit path (the router receives the remove event) and stops the ticker. The PLI
  goroutine is still in its \<^verbatim>\<open>for range\<close>: it takes the tick that was waiting in the
  channel and writes one more PLI, and after that it can take no step and the ticker
  fires no more, while its position is still the loop.
\<close>

theorem PLI_goroutine_left_waiting:
  "map_option (\<lambda>s. (map fwd (copiers s), map ticker_stopped (copiers s), map pli (copiers s),
                    pc_calls s))
     (run (init ''pub1'')
        [OnTrack \<lparr>rt_ID = ''vid'', rt_Label = ''stream-A'', rt_PayloadType = 96, rt_SSRC = 12345\<rparr> [] [] (Inr 1), PLI 0, Tick 0,
         Forward 0 (ReadErr ''EOF'') WriteOk, Forward 0 (ReadErr ''EOF'') WriteOk,
         Forward 0 (ReadErr ''EOF'') WriteOk, Forward 0 (ReadErr ''EOF'') WriteOk,
         Forward 0 (ReadErr ''EOF'') WriteOk, Forward 0 (ReadErr ''EOF'') WriteOk])
     = Some ([FReturned], [True], [PRange],
             [NewTrack_call \<lparr>nt_payloadType = 96, nt_ssrc = 12345, nt_id = ''sfu_vid'',
                              nt_label = ''sfu_pub1_stream-A''\<rparr>,
              WriteRTCP_PLI 12345]) \<and>
   map_option (\<lambda>s. (map fwd (copiers s), map pli (copiers s), pc_calls s,
                    step s (PLI 0), step s (Tick 0)))
     (run (init ''pub1'')
        [OnTrack \<lparr>rt_ID = ''vid'', rt_Label = ''stream-A'', rt_PayloadType = 96, rt_SSRC = 12345\<rparr> [] [] (Inr 1), PLI 0, Tick 0,
         Forward 0 (ReadErr ''EOF'') WriteOk, Forward 0 (ReadErr ''EOF'') WriteOk,
         Forward 0 (ReadErr ''EOF'') WriteOk, Forward 0 (ReadErr ''EOF'') WriteOk,
         Forward 0 (ReadErr ''EOF'') WriteOk, Forward 0 (ReadErr ''EOF'') WriteOk,
         PLI 0])
     = Some ([FReturned], [PRange],
             [NewTrack_call \<lparr>nt_payloadType = 96, nt_ssrc = 12345, nt_id = ''sfu_vid'',
                              nt_label = ''sfu_pub1_stream-A''\<rparr>,
              WriteRTCP_PLI 12345, WriteRTCP_PLI 12345],
             None, None)"
  by (simp add: exec_defs)

section \<open>Tracks and the lock of the local tracks\<close>

text \<open>
  C9 at a failing input. A handler has taken \<^verbatim>\<open>localTracksMu\<close> and appended its track,
  and has not released the lock yet. \<^verbatim>\<open>Tracks()\<close> called now returns at once, with the
  list as it stands and the lock untouched, while \<^verbatim>\<open>AddTrack\<close>, which takes the lock,
  has to wait.
\<close>

theorem Tracks_reads_while_locked:
  "map_option (\<lambda>s. (localTracksMu (listener s), map handler (copiers s),
                    map_option Tracks_returned (step s CallTracks),
                    map_option (\<lambda>t. localTracksMu (listener t)) (step s CallTracks),
                    map_option Tracks_returned (step s (CallAddTrack 9 (Inr 4)))))
     (run (init ''pub1'') [OnTrack \<lparr>rt_ID = ''vid'', rt_Label = ''stream-A'', rt_PayloadType = 96, rt_SSRC = 12345\<rparr> [] [] (Inr 1), Handler 0, Handler 0])
     = Some (True, [HUnlock], Some [[1]], Some True, None)"
  by (simp add: exec_defs)

end
